theory Spec2Isabelle
  imports Main
begin

section \<open>JavaScript values and strings\<close>

text \<open>
  The helpers of \<^verbatim>\<open>utils.js\<close> inspect a value in three ways only: by its
  \<^verbatim>\<open>typeof\<close> tag, by reading a property, and by converting it to text. A value of the
  embedding carries exactly that much.
  \<^item> \<open>Num t\<close> is a number whose decimal text (\<^verbatim>\<open>Number.prototype.toString\<close>) is \<open>t\<close>;
    no arithmetic is done on bound values, so the text is all that is needed.
  \<^item> \<open>Obj t ps\<close> is an object whose conversion to text gives \<open>t\<close> (for a plain
    object \<^verbatim>\<open>[object Object]\<close>, for an array its joined elements) and whose property
    read \<^verbatim>\<open>value[k]\<close> is the lookup of \<open>k\<close> in \<open>ps\<close>, own and inherited properties
    alike; a property that is not there reads as \<^verbatim>\<open>undefined\<close>.
  \<^item> \<open>Fun t\<close> is a callable value (\<^verbatim>\<open>typeof\<close> gives \<^verbatim>\<open>function\<close>) whose source text is \<open>t\<close>.
  \<^item> \<open>Window\<close> is the global object. Its properties are a parameter \<open>win\<close> of the
    functions that read it, so that the self reference \<^verbatim>\<open>window.window\<close> can be written
    as the entry \<open>(''window'', Window)\<close>.
  Strings are lists of characters; getters with effects and conversions that throw are
  outside the embedding.
\<close>

datatype jsval =
    Undefined
  | Null
  | Bool bool
  | Num string
  | Str string
  | Obj string "(string \<times> jsval) list"
  | Fun string
  | Window

type_synonym props = "(string \<times> jsval) list"

text \<open>\<^verbatim>\<open>typeof value === 'object' && value !== null\<close>\<close>

fun is_object :: "jsval \<Rightarrow> bool" where
  "is_object (Obj t ps) = True"
| "is_object Window = True"
| "is_object v = False"

text \<open>The property read \<^verbatim>\<open>value[k]\<close> on a value that passed \<open>is_object\<close>.\<close>

fun get_prop :: "props \<Rightarrow> jsval \<Rightarrow> string \<Rightarrow> jsval" where
  "get_prop win (Obj t ps) k = (case map_of ps k of None \<Rightarrow> Undefined | Some v \<Rightarrow> v)"
| "get_prop win Window k = (case map_of win k of None \<Rightarrow> Undefined | Some v \<Rightarrow> v)"
| "get_prop win v k = Undefined"

text \<open>\<^verbatim>\<open>String(value)\<close>, and the conversion that \<^verbatim>\<open>+\<close> applies next to a string.\<close>

fun ToString :: "jsval \<Rightarrow> string" where
  "ToString Undefined = ''undefined''"
| "ToString Null = ''null''"
| "ToString (Bool b) = (if b then ''true'' else ''false'')"
| "ToString (Num t) = t"
| "ToString (Str s) = s"
| "ToString (Obj t ps) = t"
| "ToString (Fun t) = t"
| "ToString Window = ''[object Window]''"



text \<open>\<^verbatim>\<open>s.indexOf(c)\<close> for a one-character search string: the first position, or -1.\<close>

fun indexOf :: "string \<Rightarrow> char \<Rightarrow> int" where
  "indexOf [] c = - 1"
| "indexOf (x # xs) c =
     (if x = c then 0 else (let i = indexOf xs c in if i = - 1 then - 1 else i + 1))"

text \<open>
  \<^verbatim>\<open>s.substring(start, end)\<close>: both positions are clamped to the string and swapped when
  they come in the wrong order. \<open>substring_from\<close> is the call with one argument.
\<close>

definition substring :: "string \<Rightarrow> int \<Rightarrow> int \<Rightarrow> string" where
  "substring s start fin =
     (let len = int (length s);
          a = min (max start 0) len;
          b = min (max fin 0) len
      in take (nat (max a b - min a b)) (drop (nat (min a b)) s))"

definition substring_from :: "string \<Rightarrow> int \<Rightarrow> string" where
  "substring_from s start = substring s start (int (length s))"

text \<open>
  \<^verbatim>\<open>s.replace(/c/g, rep)\<close> for a pattern of one literal character: every occurrence is
  replaced, left to right, and the replacement text is not scanned again.
\<close>

fun replace :: "char \<Rightarrow> string \<Rightarrow> string \<Rightarrow> string" where
  "replace c rep [] = []"
| "replace c rep (x # xs) = (if x = c then rep @ replace c rep xs else x # replace c rep xs)"

text \<open>\<^verbatim>\<open>s.split(c)\<close> for a one-character separator; the result is never empty.\<close>

fun split_str :: "char \<Rightarrow> string \<Rightarrow> string list" where
  "split_str c [] = [[]]"
| "split_str c (x # xs) =
     (if x = c then [] # split_str c xs
      else (let r = split_str c xs in (x # hd r) # tl r))"



section \<open>HTML escaping and the tagged template\<close>

text \<open>
  \<^verbatim>\<open>escapeHtml(text)\<close>: \<^verbatim>\<open>undefined\<close>, \<^verbatim>\<open>null\<close> and numbers are returned as they are;
  everything else is converted to a string and passed through the five replacements in
  the order of the source.
\<close>

definition escape_string :: "string \<Rightarrow> string" where
  "escape_string s =
     replace (CHR ''>'') ''&gt;''
       (replace (CHR ''<'') ''&lt;''
         (replace (CHR 0x27) ''&#039;''
           (replace (CHR 0x22) ''&quot;''
             (replace (CHR ''&'') ''&amp;'' s))))"

fun escapeHtml :: "jsval \<Rightarrow> jsval" where
  "escapeHtml Undefined = Undefined"
| "escapeHtml Null = Null"
| "escapeHtml (Num t) = Num t"
| "escapeHtml v = Str (escape_string (ToString v))"





section \<open>Data binding\<close>

text \<open>
  \<^verbatim>\<open>getBindValue(data, key)\<close>. \<open>getBindValue_loop\<close> is the \<^verbatim>\<open>for\<close> loop over the keys,
  started at the first key: a value that is not an object (or is \<^verbatim>\<open>null\<close>) is replaced
  by \<^verbatim>\<open>null\<close>, an object by the property read. The global object is the root only when
  the key has more than one segment and the first one is \<^verbatim>\<open>window\<close>.
\<close>

fun getBindValue_loop :: "props \<Rightarrow> jsval \<Rightarrow> string list \<Rightarrow> jsval" where
  "getBindValue_loop win value [] = value"
| "getBindValue_loop win value (k # keys) =
     getBindValue_loop win (if is_object value then get_prop win value k else Null) keys"

definition bind_root :: "jsval \<Rightarrow> string list \<Rightarrow> jsval" where
  "bind_root data keys = (if length keys > 1 \<and> hd keys = ''window'' then Window else data)"

definition getBindValue :: "props \<Rightarrow> jsval \<Rightarrow> string \<Rightarrow> jsval" where
  "getBindValue win data key =
     (let keys = split_str (CHR ''.'') key;
          value = getBindValue_loop win (bind_root data keys) keys
      in if value = Undefined then Null else value)"

text \<open>
  The parsing loop of \<^verbatim>\<open>bindAttrTmpl\<close>. \<open>substitute\<close> is the body of the loop after the
  \<^verbatim>\<open>break\<close> test, with the fallback for \<^verbatim>\<open>undefined\<close> as the source has it; \<open>tmpl_loop\<close>
  is the \<^verbatim>\<open>while\<close> loop and returns the string together with the final \<^verbatim>\<open>loopCount\<close>.
\<close>

definition maxLoop :: nat where
  "maxLoop = 100"

definition substitute :: "props \<Rightarrow> jsval \<Rightarrow> string \<Rightarrow> int \<Rightarrow> int \<Rightarrow> string" where
  "substitute win data value posStart posEnd =
     (let key = substring value (posStart + 1) posEnd;
          boundValue = getBindValue win data key;
          boundValue = (if boundValue = Undefined then Str [] else boundValue)
      in substring value 0 posStart @ ToString boundValue @ substring_from value (posEnd + 1))"

function tmpl_loop :: "props \<Rightarrow> jsval \<Rightarrow> string \<Rightarrow> nat \<Rightarrow> string \<times> nat" where
  "tmpl_loop win data value loopCount =
     (if loopCount < maxLoop
      then (let posStart = indexOf value (CHR ''['');
                posEnd = indexOf value (CHR '']'')
            in if posStart = - 1 \<or> posEnd = - 1 \<or> posEnd < posStart
               then (value, loopCount)
               else tmpl_loop win data (substitute win data value posStart posEnd)
                      (loopCount + 1))
      else (value, loopCount))"
  by pat_completeness auto
termination
  by (relation "measure (\<lambda>(win, data, value, loopCount). maxLoop - loopCount)") auto

declare tmpl_loop.simps [simp del]

text \<open>
  An element is modelled by its attributes. \<^verbatim>\<open>getAttribute\<close> gives \<^verbatim>\<open>null\<close> (here
  \<open>None\<close>) for an attribute that is not there, \<^verbatim>\<open>setAttribute\<close> adds or overwrites one.
  Attribute names are compared as they are written, and the names that the code passes
  to \<^verbatim>\<open>setAttribute\<close> are taken to be names that the browser accepts.
\<close>

type_synonym element = "string \<Rightarrow> string option"








section \<open>Reference notions\<close>

text \<open>
  The character-wise mapping that \<^verbatim>\<open>escapeHtml\<close> is meant to compute: the five special
  characters go to their entities, every other character stays.
\<close>

definition escape_char :: "char \<Rightarrow> string" where
  "escape_char c =
     (if c = CHR ''&'' then ''&amp;''
      else if c = CHR 0x22 then ''&quot;''
      else if c = CHR 0x27 then ''&#039;''
      else if c = CHR ''<'' then ''&lt;''
      else if c = CHR ''>'' then ''&gt;''
      else [c])"

text \<open>
  A string whose first \<^verbatim>\<open>[\<close> comes before its first \<^verbatim>\<open>]\<close>: it reads \<open>pre [ key ] post\<close>,
  where \<open>pre\<close> has no bracket and \<open>key\<close> has no closing bracket.
\<close>

definition bracketed :: "string \<Rightarrow> string \<Rightarrow> string \<Rightarrow> string \<Rightarrow> bool" where
  "bracketed value pre key post =
     (value = pre @ CHR ''['' # key @ CHR '']'' # post \<and>
      CHR ''['' \<notin> set pre \<and> CHR '']'' \<notin> set pre \<and> CHR '']'' \<notin> set key)"


text \<open>
  The number of times the body of the \<^verbatim>\<open>while\<close> loop is entered: the loop of \<open>tmpl_loop\<close>
  again, counting one for the iteration that leaves by \<^verbatim>\<open>break\<close> and one for each
  iteration that substitutes.
\<close>

function tmpl_iterations :: "props \<Rightarrow> jsval \<Rightarrow> string \<Rightarrow> nat \<Rightarrow> nat" where
  "tmpl_iterations win data value loopCount =
     (if loopCount < maxLoop
      then (let posStart = indexOf value (CHR ''['');
                posEnd = indexOf value (CHR '']'')
            in if posStart = - 1 \<or> posEnd = - 1 \<or> posEnd < posStart
               then 1
               else 1 + tmpl_iterations win data (substitute win data value posStart posEnd)
                          (loopCount + 1))
      else 0)"
  by pat_completeness auto
termination
  by (relation "measure (\<lambda>(win, data, value, loopCount). maxLoop - loopCount)") auto

declare tmpl_iterations.simps [simp del]

section \<open>Example inputs\<close>




section \<open>Binding twice\<close>






section \<open>The polyfill for customized built-in elements\<close>

text \<open>
  \<^verbatim>\<open>polyfillCustomElements(rootElement)\<close>. The state is the module variable
  \<^verbatim>\<open>polyfillIsNeeded\<close> (\<open>None\<close> for \<^verbatim>\<open>null\<close>) and the registry of custom elements, with three
  observations added: how often the probe has run, which \<^verbatim>\<open>setup\<close> calls were made, and
  how many of them ended in \<^verbatim>\<open>showErrorAlert\<close>. The class that a run of the probe declares
  is \<open>WebComponentCheck k\<close> for the \<open>k\<close>-th run; \<open>OtherClass\<close> is any class registered by
  another script. The browser is taken to provide \<^verbatim>\<open>window.customElements\<close>; whether it
  upgrades \<^verbatim>\<open><div is="...">\<close> is the parameter \<open>customizedBuiltIns\<close>. A call gets the
  polyfill list of the window (\<open>None\<close> when it is not an array) and the result of
  \<^verbatim>\<open>rootElement.querySelectorAll\<close> for each selector; \<open>setup_throws\<close> says on which
  elements the \<^verbatim>\<open>setup\<close> function of a polyfill throws.
\<close>

datatype js_class = WebComponentCheck nat | OtherClass

record polyfill =
  polyfill_element :: string
  polyfill_extendsElement :: string
  setup_throws :: "nat \<Rightarrow> bool"

record module_state =
  polyfillIsNeeded :: "bool option"
  registry :: "string \<Rightarrow> js_class option"
  probes :: nat
  setups :: "(string \<times> nat) list"
  alerts :: nat

record call_env =
  webComponentPolyfills :: "polyfill list option"
  querySelectorAll :: "string \<Rightarrow> string \<Rightarrow> nat list"

definition probe :: "bool \<Rightarrow> module_state \<Rightarrow> module_state" where
  "probe customizedBuiltIns st =
     (let cls = WebComponentCheck (probes st);
          reg = (if registry st ''web-component-polyfill-check'' = None
                 then (registry st)(''web-component-polyfill-check'' \<mapsto> cls)
                 else registry st);
          div_instanceof = (customizedBuiltIns \<and> reg ''web-component-polyfill-check'' = Some cls)
      in st\<lparr>registry := reg, polyfillIsNeeded := Some (\<not> div_instanceof),
               probes := probes st + 1\<rparr>)"

fun setup_elements :: "polyfill \<Rightarrow> nat list \<Rightarrow> module_state \<Rightarrow> module_state" where
  "setup_elements p [] st = st"
| "setup_elements p (e # es) st =
     setup_elements p es
       (if setup_throws p e
        then st\<lparr>setups := setups st @ [(polyfill_element p, e)], alerts := alerts st + 1\<rparr>
        else st\<lparr>setups := setups st @ [(polyfill_element p, e)]\<rparr>)"

fun setup_polyfills :: "(string \<Rightarrow> string \<Rightarrow> nat list) \<Rightarrow> polyfill list \<Rightarrow> module_state \<Rightarrow> module_state" where
  "setup_polyfills q [] st = st"
| "setup_polyfills q (p # ps) st =
     setup_polyfills q ps
       (setup_elements p (q (polyfill_extendsElement p) (polyfill_element p)) st)"

definition polyfillCustomElements :: "bool \<Rightarrow> call_env \<Rightarrow> module_state \<Rightarrow> module_state" where
  "polyfillCustomElements customizedBuiltIns rootElement st =
     (let st' = (if polyfillIsNeeded st = None then probe customizedBuiltIns st else st)
      in if polyfillIsNeeded st' = Some True
         then (case webComponentPolyfills rootElement of
                 Some ps \<Rightarrow> setup_polyfills (querySelectorAll rootElement) ps st'
               | None \<Rightarrow> st')
         else st')"

text \<open>The state when the module has been loaded, and a page with two inputs to set up.\<close>

definition module_start :: module_state where
  "module_start =
     \<lparr>polyfillIsNeeded = None, registry = (\<lambda>name. None), probes = 0, setups = [], alerts = 0\<rparr>"

definition example_root :: call_env where
  "example_root =
     \<lparr>webComponentPolyfills =
        Some [\<lparr>polyfill_element = ''input-filter'', polyfill_extendsElement = ''input'',
               setup_throws = (\<lambda>e. e = 2)\<rparr>],
      querySelectorAll = (\<lambda>ext el. if ext = ''input'' \<and> el = ''input-filter'' then [1, 2] else [])\<rparr>"

section \<open>Waiting for components\<close>

text \<open>
  \<^verbatim>\<open>componentsAreSetup()\<close>. A promise of the browser is modelled by its fate: it is
  fulfilled, it is rejected, or it stays pending for ever. \<^verbatim>\<open>Promise.all\<close> is rejected as
  soon as one of its promises is, stays pending when none is rejected and one stays
  pending, and is fulfilled otherwise.
\<close>

datatype settle = Fulfilled | Rejected | Pending

fun promise_all :: "settle list \<Rightarrow> settle" where
  "promise_all [] = Fulfilled"
| "promise_all (p # ps) =
     (if p = Rejected then Rejected
      else (case promise_all ps of
              Rejected \<Rightarrow> Rejected
            | Pending \<Rightarrow> Pending
            | Fulfilled \<Rightarrow> p))"

text \<open>
  The callback of \<^verbatim>\<open>setInterval\<close> and what it shares with the executor: the counter, whether
  \<^verbatim>\<open>clearInterval\<close> has been called and whether \<^verbatim>\<open>resolve\<close> has been called. \<open>tick\<close> is one
  call of the callback, given the number of elements that \<^verbatim>\<open>querySelectorAll('[not-setup]')\<close>
  finds at that moment.
\<close>

record poll_state =
  setup_loopCount :: nat
  cleared :: bool
  resolved :: bool

definition maxLoops :: nat where
  "maxLoops = 1000"

definition interval_ms :: nat where
  "interval_ms = 10"

definition tick :: "nat \<Rightarrow> poll_state \<Rightarrow> poll_state" where
  "tick notSetup_length st =
     (let st' = (if notSetup_length = 0 then st\<lparr>cleared := True, resolved := True\<rparr>
                 else if setup_loopCount st > maxLoops then st\<lparr>cleared := True, resolved := True\<rparr>
                 else st)
      in st'\<lparr>setup_loopCount := setup_loopCount st + 1\<rparr>)"

text \<open>
  The timer calls the callback every \<open>interval_ms\<close> milliseconds until it is cleared;
  \<open>found k\<close> is the number of elements with \<^verbatim>\<open>[not-setup]\<close> at call \<open>k\<close>, counted from 0. The
  result is the final state and the number of calls made.
\<close>

function run_interval :: "(nat \<Rightarrow> nat) \<Rightarrow> poll_state \<Rightarrow> nat \<Rightarrow> poll_state \<times> nat" where
  "run_interval found st k =
     (let st' = tick (found k) st
      in if cleared st' then (st', k + 1) else run_interval found st' (k + 1))"
  by pat_completeness auto
termination
proof (relation "measure (\<lambda>(found, st, k). maxLoops + 2 - setup_loopCount st)")
  show "wf (measure (\<lambda>(found, st, k). maxLoops + 2 - setup_loopCount st))"
    by simp
next
  fix found :: "nat \<Rightarrow> nat" and st :: poll_state and k :: nat and st' :: poll_state
  assume "st' = tick (found k) st" and "\<not> cleared st'"
  then have "setup_loopCount st \<le> maxLoops" and "setup_loopCount st' = setup_loopCount st + 1"
    by (auto simp: tick_def Let_def split: if_splits)
  then show "((found, st', k + 1), (found, st, k))
               \<in> measure (\<lambda>(found, st, k). maxLoops + 2 - setup_loopCount st)"
    by simp
qed

declare run_interval.simps [simp del]

text \<open>
  What the page and the browser decide: the names of the elements that are not yet
  defined when the function is called (the \<^verbatim>\<open>is\<close> attribute or the local name), the fate
  of \<^verbatim>\<open>whenDefined\<close> for each name, and the number of \<^verbatim>\<open>[not-setup]\<close> elements at each
  poll. The result of \<open>componentsAreSetup\<close> is the number of the poll at which the returned
  promise resolves, or \<open>None\<close> when it never does: an \<^verbatim>\<open>await\<close> on a promise that stays
  pending does not continue, and one on a rejected promise throws in the executor before
  the timer is started.
\<close>

record document_env =
  undefinedComponents :: "string list"
  whenDefined :: "string \<Rightarrow> settle"
  notSetup :: "nat \<Rightarrow> nat"

definition start_polling :: "document_env \<Rightarrow> poll_state \<times> nat" where
  "start_polling env =
     run_interval (notSetup env) \<lparr>setup_loopCount = 0, cleared = False, resolved = False\<rparr> 0"

definition componentsAreSetup :: "document_env \<Rightarrow> nat option" where
  "componentsAreSetup env =
     (if length (undefinedComponents env) > 0
      then (case promise_all (map (whenDefined env) (undefinedComponents env)) of
              Fulfilled \<Rightarrow>
                (let (st, polls) = start_polling env in if resolved st then Some polls else None)
            | Rejected \<Rightarrow> None
            | Pending \<Rightarrow> None)
      else (let (st, polls) = start_polling env in if resolved st then Some polls else None))"

text \<open>
  Three pages: one with an element \<^verbatim>\<open><my-widget>\<close> that no script ever defines and no
  element to set up; one without undefined elements where some element keeps
  \<^verbatim>\<open>[not-setup]\<close> for ever; and one whose table is defined and set up by the fourth poll.
\<close>

definition stuck_page :: document_env where
  "stuck_page =
     \<lparr>undefinedComponents = [''my-widget''], whenDefined = (\<lambda>name. Pending),
      notSetup = (\<lambda>k. 0)\<rparr>"

definition never_ready_page :: document_env where
  "never_ready_page =
     \<lparr>undefinedComponents = [], whenDefined = (\<lambda>name. Fulfilled), notSetup = (\<lambda>k. 1)\<rparr>"

definition slow_page :: document_env where
  "slow_page =
     \<lparr>undefinedComponents = [''data-table''], whenDefined = (\<lambda>name. Fulfilled),
      notSetup = (\<lambda>k. if k < 3 then 2 else 0)\<rparr>"

section \<open>The animation service\<close>

text \<open>
  \<^verbatim>\<open>classList.add(token)\<close> throws a \<^verbatim>\<open>SyntaxError\<close> for the empty string and an
  \<^verbatim>\<open>InvalidCharacterError\<close> for a token with ASCII white space; otherwise it appends the
  token unless it is there already. \<^verbatim>\<open>classList.contains\<close> does not throw.
\<close>

datatype dom_error = SyntaxError | InvalidCharacterError

definition ascii_whitespace :: "char \<Rightarrow> bool" where
  "ascii_whitespace c = (of_char c \<in> {9, 10, 12, 13, 32 :: nat})"

definition classList_add :: "string \<Rightarrow> string list \<Rightarrow> dom_error + string list" where
  "classList_add token tokens =
     (if token = [] then Inl SyntaxError
      else if list_ex ascii_whitespace token then Inl InvalidCharacterError
      else Inr (if token \<in> set tokens then tokens else tokens @ [token]))"

definition classList_contains :: "string \<Rightarrow> string list \<Rightarrow> bool" where
  "classList_contains token tokens = (token \<in> set tokens)"

text \<open>
  An element, as far as the service reads and writes it: its \<^verbatim>\<open>data-animate\<close> attribute
  (\<open>None\<close> when it has none) and its list of classes. An entry of the observer names its
  target and says whether it intersects. The page holds the elements by number and the
  set of targets that the observer observes.
\<close>

record animated =
  data_animate :: "string option"
  classList :: "string list"

record entry =
  target :: nat
  isIntersecting :: bool

record animation_page =
  elements :: "nat \<Rightarrow> animated"
  observed :: "nat set"

text \<open>The text that \<^verbatim>\<open>classList.add\<close> and \<^verbatim>\<open>contains\<close> make of the result of \<^verbatim>\<open>getAttribute\<close>.\<close>

definition attribute_text :: "string option \<Rightarrow> string" where
  "attribute_text a = (case a of None \<Rightarrow> ''null'' | Some s \<Rightarrow> s)"

text \<open>
  The callback given to \<^verbatim>\<open>IntersectionObserver\<close>: the \<^verbatim>\<open>for ... of\<close> loop over the entries.
  An exception of \<^verbatim>\<open>classList.add\<close> ends the callback; what the earlier entries changed
  stays. The result is the page and the exception, if any.
\<close>

fun observer_callback :: "entry list \<Rightarrow> animation_page \<Rightarrow> animation_page \<times> dom_error option" where
  "observer_callback [] page = (page, None)"
| "observer_callback (e # entries) page =
     (if isIntersecting e
      then (let className = attribute_text (data_animate (elements page (target e)))
            in case classList_add className (classList (elements page (target e))) of
                 Inl err \<Rightarrow> (page, Some err)
               | Inr tokens \<Rightarrow>
                   observer_callback entries
                     (page\<lparr>elements := (elements page)
                              (target e := (elements page (target e))\<lparr>classList := tokens\<rparr>),
                            observed := observed page - {target e}\<rparr>))
      else observer_callback entries page)"

text \<open>
  \<^verbatim>\<open>onLoad()\<close>: the elements that have the attribute and do not yet have the class are
  observed.
\<close>

definition onLoad :: "nat list \<Rightarrow> (nat \<Rightarrow> animated) \<Rightarrow> animation_page" where
  "onLoad document_elements els =
     \<lparr>elements = els,
      observed = set (filter (\<lambda>el. \<not> classList_contains (attribute_text (data_animate (els el)))
                                      (classList (els el)))
                        (filter (\<lambda>el. data_animate (els el) \<noteq> None) document_elements))\<rparr>"

text \<open>
  The browser calls the callback with one batch of entries after the other; an exception
  in one call does not stop later calls.
\<close>

fun deliver :: "entry list list \<Rightarrow> animation_page \<Rightarrow> animation_page" where
  "deliver [] page = page"
| "deliver (batch # batches) page = deliver batches (fst (observer_callback batch page))"

text \<open>
  \<open>delivered_by_browser\<close> says that every batch holds entries only for targets that are
  observed when the batch is delivered, which is what the observer of the browser
  guarantees. A batch may name a target more than once.
\<close>

fun delivered_by_browser :: "entry list list \<Rightarrow> animation_page \<Rightarrow> bool" where
  "delivered_by_browser [] page = True"
| "delivered_by_browser (batch # batches) page =
     (list_all (\<lambda>e. target e \<in> observed page) batch \<and>
      delivered_by_browser batches (fst (observer_callback batch page)))"

text \<open>An attribute value that is one class name: not empty and without white space.\<close>

definition class_token :: "string option \<Rightarrow> bool" where
  "class_token a = (case a of None \<Rightarrow> False | Some s \<Rightarrow> s \<noteq> [] \<and> \<not> list_ex ascii_whitespace s)"

text \<open>
  A page with a card to animate (4), an element whose attribute names two classes (5)
  and one that has its class already (6).
\<close>

definition animate_elements :: "nat \<Rightarrow> animated" where
  "animate_elements =
     (\<lambda>el. \<lparr>data_animate = None, classList = []\<rparr>)
     (4 := \<lparr>data_animate = Some ''show-and-scale'', classList = [''card'']\<rparr>,
      5 := \<lparr>data_animate = Some ''fade in'', classList = []\<rparr>,
      6 := \<lparr>data_animate = Some ''show-and-scale'', classList = [''show-and-scale'']\<rparr>)"

definition animate_page :: animation_page where
  "animate_page = onLoad [3, 4, 5, 6] animate_elements"

definition two_classes_batch :: "entry list" where
  "two_classes_batch = [\<lparr>target = 5, isIntersecting = True\<rparr>]"

definition one_class_batch :: "entry list" where
  "one_class_batch = [\<lparr>target = 4, isIntersecting = True\<rparr>]"

section \<open>Attachment to the document\<close>

text \<open>
  \<^verbatim>\<open>isAttachedToDom(element)\<close>. Nodes are numbered, \<open>parentNode\<close> gives the parent of a
  node or \<^verbatim>\<open>null\<close>, and \<open>document\<close> is the number of the document node. The loop follows
  parent links for as long as there are any; it is a partial function, \<open>None\<close> standing
  for a walk that does not end.
\<close>

type_synonym node = nat

partial_function (option) isAttachedToDom_loop ::
  "(node \<Rightarrow> node option) \<Rightarrow> node \<Rightarrow> node option \<Rightarrow> bool option" where
  "isAttachedToDom_loop parentNode document node =
     (case node of
        None \<Rightarrow> Some False
      | Some n \<Rightarrow>
          (let node' = parentNode n
           in if node' = Some document then Some True
              else isAttachedToDom_loop parentNode document node'))"

definition isAttachedToDom :: "(node \<Rightarrow> node option) \<Rightarrow> node \<Rightarrow> node \<Rightarrow> bool option" where
  "isAttachedToDom parentNode document element =
     isAttachedToDom_loop parentNode document (parentNode element)"

text \<open>
  The nodes above a node, nearest first: \<open>parent_chain parentNode node ns\<close> holds when
  \<open>ns\<close> lists \<open>node\<close> and then its parent, grandparent and so on, up to the node
  that has no parent. A tree has such a list for every node.
\<close>

inductive parent_chain :: "(node \<Rightarrow> node option) \<Rightarrow> node option \<Rightarrow> node list \<Rightarrow> bool" where
  chain_null: "parent_chain parentNode None []"
| chain_node: "parent_chain parentNode (parentNode n) ns \<Longrightarrow> parent_chain parentNode (Some n) (n # ns)"

code_pred (modes: i \<Rightarrow> i \<Rightarrow> o \<Rightarrow> bool, i \<Rightarrow> i \<Rightarrow> i \<Rightarrow> bool) parent_chain .

text \<open>
  A small document: node 0 is the document, 1 the root element, 2 the body and 3 a
  paragraph in it; node 7 is detached.
\<close>

definition example_parentNode :: "node \<Rightarrow> node option" where
  "example_parentNode = [1 \<mapsto> 0, 2 \<mapsto> 1, 3 \<mapsto> 2]"

section \<open>Strings\<close>

lemma replace_append: "replace c rep (xs @ ys) = replace c rep xs @ replace c rep ys"
  by (induction xs) simp_all

lemma escape_string_Nil: "escape_string [] = []"
  by (simp add: escape_string_def)

lemma escape_string_Cons: "escape_string (x # xs) = escape_char x @ escape_string xs"
  by (simp add: escape_string_def escape_char_def replace_append)

lemma escape_string_map: "escape_string s = concat (map escape_char s)"
  by (induction s) (simp_all add: escape_string_Nil escape_string_Cons)

lemma indexOf_ge: "- 1 \<le> indexOf s c"
  by (induction s) (simp_all add: Let_def)

lemma indexOf_absent: "c \<notin> set s \<Longrightarrow> indexOf s c = - 1"
  by (induction s) (auto simp: Let_def)

lemma indexOf_first: "c \<notin> set pre \<Longrightarrow> indexOf (pre @ c # post) c = int (length pre)"
  by (induction pre) (auto simp: Let_def)

lemma indexOf_split:
  "indexOf s c \<noteq> - 1 \<Longrightarrow>
   \<exists>pre post. s = pre @ c # post \<and> c \<notin> set pre \<and> indexOf s c = int (length pre)"
proof (induction s)
  case Nil
  then show ?case by simp
next
  case (Cons x xs)
  show ?case
  proof (cases "x = c")
    case True
    then have "x # xs = [] @ c # xs \<and> c \<notin> set [] \<and> indexOf (x # xs) c = int (length ([]::string))"
      by simp
    then show ?thesis by blast
  next
    case False
    with Cons.prems have "indexOf xs c \<noteq> - 1"
      by (simp add: Let_def split: if_splits)
    with Cons.IH obtain pre post where
      "xs = pre @ c # post" "c \<notin> set pre" "indexOf xs c = int (length pre)"
      by blast
    with False have "x # xs = (x # pre) @ c # post \<and> c \<notin> set (x # pre) \<and>
        indexOf (x # xs) c = int (length (x # pre))"
      by (simp add: Let_def)
    then show ?thesis by blast
  qed
qed

lemma bracketed_posStart:
  "bracketed value pre key post \<Longrightarrow> indexOf value (CHR ''['') = int (length pre)"
  by (simp add: bracketed_def indexOf_first)

lemma bracketed_posEnd:
  assumes "bracketed value pre key post"
  shows "indexOf value (CHR '']'') = int (length pre) + 1 + int (length key)"
proof -
  have "value = (pre @ CHR ''['' # key) @ CHR '']'' # post"
    and "CHR '']'' \<notin> set (pre @ CHR ''['' # key)"
    using assms by (simp_all add: bracketed_def)
  then have "indexOf value (CHR '']'') = int (length (pre @ CHR ''['' # key))"
    using indexOf_first by metis
  then show ?thesis by simp
qed

lemma substring_pre: "substring (pre @ rest) 0 (int (length pre)) = pre"
  by (simp add: substring_def Let_def)

lemma substring_key:
  "substring (pre @ c # key @ d # post) (int (length pre) + 1) (int (length pre) + 1 + int (length key)) = key"
  by (simp add: substring_def Let_def nat_add_distrib)

lemma substring_post:
  "substring_from (pre @ c # key @ d # post) (int (length pre) + 1 + int (length key) + 1) = post"
  by (simp add: substring_from_def substring_def Let_def nat_add_distrib)

lemma split_str_absent: "c \<notin> set s \<Longrightarrow> split_str c s = [s]"
  by (induction s) (auto simp: Let_def)



section \<open>The tagged template\<close>



lemma map_upt_zip:
  "length ys = length xs \<Longrightarrow>
   map (\<lambda>i. f (xs ! i) (ys ! i)) [0..<length xs] = map2 f xs ys"
  by (rule nth_equalityI) simp_all

section \<open>Key lookup and the parsing loop\<close>

lemma getBindValue_not_Undefined: "getBindValue win data key \<noteq> Undefined"
  by (simp add: getBindValue_def Let_def)

lemma substitute_bracketed:
  assumes "bracketed value pre key post"
  shows "substitute win data value (indexOf value (CHR ''['')) (indexOf value (CHR '']''))
         = pre @ ToString (getBindValue win data key) @ post"
proof -
  have v: "value = pre @ CHR ''['' # key @ CHR '']'' # post"
    using assms by (simp add: bracketed_def)
  show ?thesis
    unfolding bracketed_posStart [OF assms] bracketed_posEnd [OF assms] substitute_def Let_def
    unfolding v substring_pre substring_key substring_post
    by (simp add: getBindValue_not_Undefined)
qed

lemma passes_bracketed:
  assumes s: "indexOf value (CHR ''['') \<noteq> - 1"
    and e: "indexOf value (CHR '']'') \<noteq> - 1"
    and o: "\<not> indexOf value (CHR '']'') < indexOf value (CHR ''['')"
  shows "\<exists>pre key post. bracketed value pre key post"
proof -
  from indexOf_split [OF s] obtain pre rest where
    1: "value = pre @ CHR ''['' # rest" "CHR ''['' \<notin> set pre"
       "indexOf value (CHR ''['') = int (length pre)"
    by blast
  from indexOf_split [OF e] obtain pre2 post where
    2: "value = pre2 @ CHR '']'' # post" "CHR '']'' \<notin> set pre2"
       "indexOf value (CHR '']'') = int (length pre2)"
    by blast
  from o 1(3) 2(3) have le: "length pre \<le> length pre2" by simp
  have ne: "length pre \<noteq> length pre2"
  proof
    assume "length pre = length pre2"
    with 1(1) 2(1) have "CHR ''['' # rest = CHR '']'' # post" by (metis append_eq_append_conv)
    then show False by simp
  qed
  from le ne have lt: "length pre < length pre2" by simp
  have "pre @ CHR ''['' # rest = pre2 @ CHR '']'' # post" using 1(1) 2(1) by simp
  then obtain us where "pre @ us = pre2 \<and> CHR ''['' # rest = us @ CHR '']'' # post"
    using lt by (auto simp: append_eq_append_conv2)
  then obtain key where k: "pre2 = pre @ CHR ''['' # key" "rest = key @ CHR '']'' # post"
    using lt by (cases us) auto
  then have "bracketed value pre key post"
    using 1 2 by (simp add: bracketed_def)
  then show ?thesis by blast
qed

lemma bracketed_passes:
  assumes "bracketed value pre key post"
  shows "indexOf value (CHR ''['') \<noteq> - 1 \<and> indexOf value (CHR '']'') \<noteq> - 1 \<and>
         \<not> indexOf value (CHR '']'') < indexOf value (CHR ''['')"
  by (simp add: bracketed_posStart [OF assms] bracketed_posEnd [OF assms])

lemma tmpl_loop_step:
  assumes "bracketed value pre key post" and "loopCount < maxLoop"
  shows "tmpl_loop win data value loopCount =
         tmpl_loop win data (pre @ ToString (getBindValue win data key) @ post) (loopCount + 1)"
  using bracketed_passes [OF assms(1)] assms(2)
  by (subst tmpl_loop.simps) (simp add: Let_def substitute_bracketed [OF assms(1)])

lemma tmpl_loop_exit:
  assumes "\<not> (\<exists>pre key post. bracketed value pre key post)"
  shows "tmpl_loop win data value loopCount = (value, loopCount)"
  using assms passes_bracketed [of "value"]
  by (subst tmpl_loop.simps) (auto simp: Let_def)


lemma tmpl_loop_count:
  "loopCount \<le> snd (tmpl_loop win data value loopCount) \<and>
   snd (tmpl_loop win data value loopCount) \<le> max loopCount maxLoop"
proof (induction win data "value" loopCount rule: tmpl_loop.induct)
  case (1 win data v loopCount)
  show ?case
  proof (cases "loopCount < maxLoop \<and> \<not> (indexOf v (CHR ''['') = - 1 \<or> indexOf v (CHR '']'') = - 1 \<or>
                   indexOf v (CHR '']'') < indexOf v (CHR ''['')) ")
    case True
    with 1 [OF _ refl refl] show ?thesis
      by (subst (1 2) tmpl_loop.simps) (auto simp: Let_def)
  next
    case False
    then show ?thesis
      by (subst (1 2) tmpl_loop.simps) (auto simp: Let_def)
  qed
qed

lemma getBindValue_loop_Null: "getBindValue_loop win Null keys = Null"
  by (induction keys) simp_all

lemma getBindValue_loop_non_object:
  "\<not> is_object v \<Longrightarrow> keys \<noteq> [] \<Longrightarrow> getBindValue_loop win v keys = Null"
  by (cases keys) (simp_all add: getBindValue_loop_Null)

lemma getBindValue_loop_append:
  "getBindValue_loop win v (xs @ ys) = getBindValue_loop win (getBindValue_loop win v xs) ys"
  by (induction xs arbitrary: v) simp_all

lemma getBindValue_absent:
  "CHR ''.'' \<notin> set key \<Longrightarrow> map_of ps key = None \<Longrightarrow> getBindValue win (Obj t ps) key = Null"
  by (simp add: getBindValue_def bind_root_def split_str_absent)

lemma tmpl_loop_done:
  "snd (tmpl_loop win data value loopCount) < maxLoop \<Longrightarrow>
   \<not> (\<exists>pre key post. bracketed (fst (tmpl_loop win data value loopCount)) pre key post)"
proof (induction win data "value" loopCount rule: tmpl_loop.induct)
  case (1 win data v loopCount)
  show ?case
  proof (cases "loopCount < maxLoop")
    case lt: True
    show ?thesis
    proof (cases "indexOf v (CHR ''['') = - 1 \<or> indexOf v (CHR '']'') = - 1 \<or>
                   indexOf v (CHR '']'') < indexOf v (CHR ''['')")
      case True
      then have r: "tmpl_loop win data v loopCount = (v, loopCount)"
        using lt by (subst tmpl_loop.simps) (auto simp: Let_def)
      have "\<not> (\<exists>pre key post. bracketed v pre key post)"
        using True bracketed_passes by blast
      then show ?thesis by (simp add: r)
    next
      case False
      then have r: "tmpl_loop win data v loopCount =
          tmpl_loop win data (substitute win data v (indexOf v (CHR ''['')) (indexOf v (CHR '']'')))
            (loopCount + 1)"
        using lt by (subst tmpl_loop.simps) (auto simp: Let_def)
      show ?thesis
        using "1.IH" [OF lt refl refl False] "1.prems" by (simp add: r)
    qed
  next
    case False
    then have "tmpl_loop win data v loopCount = (v, loopCount)"
      by (subst tmpl_loop.simps) simp
    with False "1.prems" show ?thesis by simp
  qed
qed

section \<open>Binding one attribute, and a list of them\<close>











section \<open>Roots, exits and iteration counts\<close>






lemma no_bracket_exit:
  "CHR ''['' \<notin> set v \<Longrightarrow> tmpl_loop win data v n = (v, n)"
  by (subst tmpl_loop.simps) (simp add: indexOf_absent Let_def)

lemma tmpl_iterations_le: "tmpl_iterations win data value loopCount \<le> maxLoop - loopCount"
proof (induction win data "value" loopCount rule: tmpl_iterations.induct)
  case (1 win data v loopCount)
  show ?case
  proof (cases "loopCount < maxLoop \<and> \<not> (indexOf v (CHR ''['') = - 1 \<or> indexOf v (CHR '']'') = - 1 \<or>
                   indexOf v (CHR '']'') < indexOf v (CHR ''['')) ")
    case True
    with 1 [OF _ refl refl] show ?thesis
      by (subst tmpl_iterations.simps) (auto simp: Let_def)
  next
    case False
    then show ?thesis
      by (subst tmpl_iterations.simps) (auto simp: Let_def)
  qed
qed

lemma malformed_not_bracketed:
  assumes "CHR ''['' \<notin> set value \<or> CHR '']'' \<notin> set value \<or>
           indexOf value (CHR '']'') < indexOf value (CHR ''['')"
  shows "\<not> (\<exists>pre key post. bracketed value pre key post)"
proof
  assume "\<exists>pre key post. bracketed value pre key post"
  then obtain pre key post where b: "bracketed value pre key post" by blast
  then have "CHR ''['' \<in> set value" "CHR '']'' \<in> set value"
    by (simp_all add: bracketed_def)
  moreover have "\<not> indexOf value (CHR '']'') < indexOf value (CHR ''['')"
    using bracketed_passes [OF b] by simp
  ultimately show False using assms by simp
qed


lemma null_twice: "tmpl_loop [] Null ''[a][b]'' 0 = (''nullnull'', 2)"
  by code_simp

section \<open>Lists of attributes\<close>















section \<open>The probe and the setup calls\<close>

lemma setup_elements_keeps:
  "polyfillIsNeeded (setup_elements p es st) = polyfillIsNeeded st \<and>
   probes (setup_elements p es st) = probes st \<and>
   registry (setup_elements p es st) = registry st"
  by (induction es arbitrary: st) simp_all

lemma setup_polyfills_keeps:
  "polyfillIsNeeded (setup_polyfills q ps st) = polyfillIsNeeded st \<and>
   probes (setup_polyfills q ps st) = probes st \<and>
   registry (setup_polyfills q ps st) = registry st"
  by (induction ps arbitrary: st) (simp_all add: setup_elements_keeps)

lemma polyfillCustomElements_first:
  assumes "polyfillIsNeeded st = None"
  shows "polyfillIsNeeded (polyfillCustomElements b r st) = polyfillIsNeeded (probe b st) \<and>
         polyfillIsNeeded (probe b st) \<noteq> None \<and>
         probes (polyfillCustomElements b r st) = probes st + 1"
  using assms
  by (auto simp: polyfillCustomElements_def Let_def setup_polyfills_keeps probe_def
           split: option.splits)

lemma polyfillCustomElements_cached:
  assumes "polyfillIsNeeded st = Some c"
  shows "polyfillIsNeeded (polyfillCustomElements b r st) = Some c \<and>
         probes (polyfillCustomElements b r st) = probes st \<and>
         registry (polyfillCustomElements b r st) = registry st"
  using assms
  by (auto simp: polyfillCustomElements_def Let_def setup_polyfills_keeps split: option.splits)

lemma calls_cached:
  assumes "polyfillIsNeeded st = Some c"
  shows "polyfillIsNeeded (fold (polyfillCustomElements b) rs st) = Some c \<and>
         probes (fold (polyfillCustomElements b) rs st) = probes st \<and>
         registry (fold (polyfillCustomElements b) rs st) = registry st"
  using assms
proof (induction rs arbitrary: st)
  case Nil
  then show ?case by simp
next
  case (Cons r rs)
  from polyfillCustomElements_cached [OF Cons.prems, of b r]
  have 1: "polyfillIsNeeded (polyfillCustomElements b r st) = Some c"
    and 2: "probes (polyfillCustomElements b r st) = probes st"
    and 3: "registry (polyfillCustomElements b r st) = registry st"
    by simp_all
  from Cons.IH [OF 1] 2 3 show ?case by simp
qed

section \<open>The polling timer\<close>

lemma tick_loopCount: "setup_loopCount (tick n st) = setup_loopCount st + 1"
  by (simp add: tick_def Let_def)

lemma tick_running: "\<not> cleared (tick n st) \<Longrightarrow> setup_loopCount st \<le> maxLoops"
  by (auto simp: tick_def Let_def split: if_splits)

lemma run_interval_spec:
  assumes "setup_loopCount st = k" and "\<not> cleared st" and "\<not> resolved st" and "k \<le> maxLoops + 1"
  shows "\<exists>st' n. run_interval found st k = (st', n) \<and> resolved st' \<and> cleared st' \<and>
           k < n \<and> n \<le> maxLoops + 2 \<and> setup_loopCount st' = n \<and>
           (\<forall>j. k \<le> j \<and> j < n - 1 \<longrightarrow> found j \<noteq> 0) \<and>
           (found (n - 1) = 0 \<or> n = maxLoops + 2)"
  using assms
proof (induction found st k rule: run_interval.induct)
  case (1 found st k)
  let ?st' = "tick (found k) st"
  show ?case
  proof (cases "cleared ?st'")
    case True
    then have r: "run_interval found st k = (?st', k + 1)"
      by (subst run_interval.simps) (simp add: Let_def)
    have "resolved ?st'" "found k = 0 \<or> k = maxLoops + 1"
      using True "1.prems" by (auto simp: tick_def Let_def split: if_splits)
    with True "1.prems" show ?thesis
      by (auto simp: r tick_loopCount)
  next
    case False
    then have r: "run_interval found st k = run_interval found ?st' (k + 1)"
      by (subst run_interval.simps) (simp add: Let_def)
    have nz: "found k \<noteq> 0" and le: "k \<le> maxLoops" and nr: "\<not> resolved ?st'"
      using False "1.prems" by (auto simp: tick_def Let_def split: if_splits)
    from "1.IH" [OF refl False _ False nr]
    obtain st'' n where
      i: "run_interval found ?st' (k + 1) = (st'', n)" "resolved st''" "cleared st''"
         "k + 1 < n" "n \<le> maxLoops + 2" "setup_loopCount st'' = n"
         "\<forall>j. k + 1 \<le> j \<and> j < n - 1 \<longrightarrow> found j \<noteq> 0"
         "found (n - 1) = 0 \<or> n = maxLoops + 2"
      using "1.prems" le by (auto simp: tick_loopCount)
    have "\<forall>j. k \<le> j \<and> j < n - 1 \<longrightarrow> found j \<noteq> 0"
    proof (intro allI impI)
      fix j assume "k \<le> j \<and> j < n - 1"
      then show "found j \<noteq> 0"
        using nz i(7) by (cases "j = k") auto
    qed
    with i show ?thesis
      by (auto simp: r)
  qed
qed

lemma promise_all_Fulfilled:
  "promise_all ps = Fulfilled \<longleftrightarrow> (\<forall>p\<in>set ps. p = Fulfilled)"
  by (induction ps) (auto split: settle.splits)

lemma start_polling_spec:
  "\<exists>st polls. start_polling env = (st, polls) \<and> resolved st \<and> cleared st \<and>
     1 \<le> polls \<and> polls \<le> maxLoops + 2 \<and>
     (\<forall>j. j < polls - 1 \<longrightarrow> notSetup env j \<noteq> 0) \<and>
     (notSetup env (polls - 1) = 0 \<or> polls = maxLoops + 2)"
proof -
  from run_interval_spec [of "\<lparr>setup_loopCount = 0, cleared = False, resolved = False\<rparr>" 0 "notSetup env"]
  obtain st n where
    "run_interval (notSetup env) \<lparr>setup_loopCount = 0, cleared = False, resolved = False\<rparr> 0 = (st, n)"
    "resolved st" "cleared st" "0 < n" "n \<le> maxLoops + 2"
    "\<forall>j. 0 \<le> j \<and> j < n - 1 \<longrightarrow> notSetup env j \<noteq> 0"
    "notSetup env (n - 1) = 0 \<or> n = maxLoops + 2"
    by auto
  then show ?thesis
    unfolding start_polling_def by auto
qed

section \<open>The observer callback\<close>

lemma classList_add_ok:
  "class_token (Some c) \<Longrightarrow>
   classList_add c tokens = Inr (if c \<in> set tokens then tokens else tokens @ [c])"
  by (simp add: class_token_def classList_add_def)

lemma callback_data_animate:
  "data_animate (elements (fst (observer_callback batch page)) t) = data_animate (elements page t)"
  by (induction batch arbitrary: page) (auto simp: Let_def split: sum.splits)

lemma callback_observed:
  "observed (fst (observer_callback batch page)) \<subseteq> observed page"
proof (induction batch arbitrary: page)
  case Nil
  show ?case by simp
next
  case (Cons e batch)
  show ?case
  proof (cases "isIntersecting e")
    case False
    then show ?thesis using Cons.IH [of page] by simp
  next
    case True
    show ?thesis
    proof (cases "classList_add (attribute_text (data_animate (elements page (target e))))
                    (classList (elements page (target e)))")
      case (Inl err)
      with True show ?thesis by (simp add: Let_def)
    next
      case (Inr tokens)
      let ?page = "page\<lparr>elements := (elements page)
                              (target e := (elements page (target e))\<lparr>classList := tokens\<rparr>),
                            observed := observed page - {target e}\<rparr>"
      have "observed (fst (observer_callback batch ?page)) \<subseteq> observed ?page"
        by (rule Cons.IH)
      with True Inr show ?thesis by (auto simp: Let_def)
    qed
  qed
qed

lemma callback_other:
  "t \<notin> target ` set batch \<Longrightarrow>
   elements (fst (observer_callback batch page)) t = elements page t"
  by (induction batch arbitrary: page) (auto simp: Let_def split: sum.splits)

lemma callback_classes_grow:
  "set (classList (elements page t)) \<subseteq> set (classList (elements (fst (observer_callback batch page)) t))"
proof (induction batch arbitrary: page)
  case Nil
  show ?case by simp
next
  case (Cons e batch)
  show ?case
  proof (cases "isIntersecting e")
    case False
    then show ?thesis using Cons.IH [of page] by simp
  next
    case True
    show ?thesis
    proof (cases "classList_add (attribute_text (data_animate (elements page (target e))))
                    (classList (elements page (target e)))")
      case (Inl err)
      with True show ?thesis by (simp add: Let_def)
    next
      case (Inr tokens)
      let ?page = "page\<lparr>elements := (elements page)
                              (target e := (elements page (target e))\<lparr>classList := tokens\<rparr>),
                            observed := observed page - {target e}\<rparr>"
      have g: "set (classList (elements page (target e))) \<subseteq> set tokens"
        using Inr by (auto simp: classList_add_def split: if_splits)
      have "set (classList (elements ?page t)) \<subseteq>
            set (classList (elements (fst (observer_callback batch ?page)) t))"
        by (rule Cons.IH)
      moreover have "set (classList (elements page t)) \<subseteq> set (classList (elements ?page t))"
        using g by simp
      ultimately show ?thesis using True Inr by (simp add: Let_def)
    qed
  qed
qed

lemma callback_distinct:
  "distinct (classList (elements page t)) \<Longrightarrow>
   distinct (classList (elements (fst (observer_callback batch page)) t))"
proof (induction batch arbitrary: page)
  case Nil
  then show ?case by simp
next
  case (Cons e batch)
  show ?case
  proof (cases "isIntersecting e")
    case False
    then show ?thesis using Cons.IH [of page] Cons.prems by simp
  next
    case True
    show ?thesis
    proof (cases "classList_add (attribute_text (data_animate (elements page (target e))))
                    (classList (elements page (target e)))")
      case (Inl err)
      with True Cons.prems show ?thesis by (simp add: Let_def)
    next
      case (Inr tokens)
      let ?page = "page\<lparr>elements := (elements page)
                              (target e := (elements page (target e))\<lparr>classList := tokens\<rparr>),
                            observed := observed page - {target e}\<rparr>"
      have "distinct (classList (elements ?page t))"
        using Inr Cons.prems by (auto simp: classList_add_def split: if_splits)
      then have "distinct (classList (elements (fst (observer_callback batch ?page)) t))"
        by (rule Cons.IH)
      with True Inr show ?thesis by (simp add: Let_def)
    qed
  qed
qed

lemma callback_adds:
  assumes "list_all (\<lambda>e. isIntersecting e \<longrightarrow> class_token (data_animate (elements page (target e)))) batch"
  shows "snd (observer_callback batch page) = None \<and>
         (\<forall>e\<in>set batch. isIntersecting e \<longrightarrow>
            attribute_text (data_animate (elements page (target e)))
              \<in> set (classList (elements (fst (observer_callback batch page)) (target e))) \<and>
            target e \<notin> observed (fst (observer_callback batch page)))"
  using assms
proof (induction batch arbitrary: page)
  case Nil
  show ?case by simp
next
  case (Cons e batch)
  show ?case
  proof (cases "isIntersecting e")
    case False
    have "list_all (\<lambda>e. isIntersecting e \<longrightarrow> class_token (data_animate (elements page (target e)))) batch"
      using Cons.prems by simp
    from Cons.IH [OF this] False show ?thesis by simp
  next
    case True
    let ?c = "attribute_text (data_animate (elements page (target e)))"
    let ?old = "classList (elements page (target e))"
    let ?tokens = "if ?c \<in> set ?old then ?old else ?old @ [?c]"
    let ?page = "page\<lparr>elements := (elements page)
                              (target e := (elements page (target e))\<lparr>classList := ?tokens\<rparr>),
                            observed := observed page - {target e}\<rparr>"
    have tok: "class_token (data_animate (elements page (target e)))"
      using Cons.prems True by simp
    then obtain c where c: "data_animate (elements page (target e)) = Some c"
      by (auto simp: class_token_def split: option.splits)
    have add: "classList_add ?c ?old = Inr ?tokens"
      using tok c classList_add_ok [of c ?old] by (simp add: attribute_text_def)
    have step: "observer_callback (e # batch) page = observer_callback batch ?page"
      using True add by (simp add: Let_def)
    have da: "data_animate (elements ?page t) = data_animate (elements page t)" for t
      by simp
    have "list_all (\<lambda>e. isIntersecting e \<longrightarrow> class_token (data_animate (elements ?page (target e)))) batch"
      using Cons.prems tok by (auto simp: list_all_iff)
    note raw = Cons.IH [OF this, unfolded da]
    have ih1: "snd (observer_callback batch ?page) = None"
      by (rule raw [THEN conjunct1])
    have ih2: "\<forall>e\<in>set batch. isIntersecting e \<longrightarrow>
            attribute_text (data_animate (elements page (target e)))
              \<in> set (classList (elements (fst (observer_callback batch ?page)) (target e))) \<and>
            target e \<notin> observed (fst (observer_callback batch ?page))"
      by (rule raw [THEN conjunct2])
    have "?c \<in> set (classList (elements ?page (target e)))"
      by simp
    then have here: "?c \<in> set (classList (elements (fst (observer_callback batch ?page)) (target e)))"
      using callback_classes_grow [of ?page "target e" batch] by blast
    have gone: "target e \<notin> observed (fst (observer_callback batch ?page))"
      using callback_observed [of batch ?page] by auto
    show ?thesis
      unfolding step using ih1 ih2 here gone by (simp only: list.set ball_simps fst_conv snd_conv) blast
  qed
qed

lemma deliver_unobserved:
  "t \<notin> observed page \<Longrightarrow> delivered_by_browser batches page \<Longrightarrow>
   elements (deliver batches page) t = elements page t \<and> t \<notin> observed (deliver batches page)"
proof (induction batches arbitrary: page)
  case Nil
  then show ?case by simp
next
  case (Cons batch batches)
  have "t \<notin> target ` set batch"
    using Cons.prems by (auto simp: list_all_iff)
  then have same: "elements (fst (observer_callback batch page)) t = elements page t"
    by (rule callback_other)
  have still: "t \<notin> observed (fst (observer_callback batch page))"
    using callback_observed [of batch page] Cons.prems(1) by auto
  from Cons.IH [OF still] Cons.prems(2) same show ?case by simp
qed

lemma deliver_distinct:
  "distinct (classList (elements page t)) \<Longrightarrow>
   distinct (classList (elements (deliver batches page) t))"
  by (induction batches arbitrary: page) (simp_all add: callback_distinct)

lemma animate_page_simps:
  "observed animate_page = {4, 5}"
  "elements animate_page 4 = \<lparr>data_animate = Some ''show-and-scale'', classList = [''card'']\<rparr>"
  "elements animate_page 5 = \<lparr>data_animate = Some ''fade in'', classList = []\<rparr>"
  by (auto simp: animate_page_def onLoad_def animate_elements_def classList_contains_def
        attribute_text_def)

lemma show_and_scale_token: "class_token (Some ''show-and-scale'')"
  by code_simp

section \<open>Walking to the document\<close>

lemma parent_chain_head:
  "parent_chain parentNode node ns \<Longrightarrow> (document \<in> set ns) = (node = Some document \<or> document \<in> set (tl ns))"
  by (induction rule: parent_chain.induct) auto

lemma isAttachedToDom_loop_chain:
  "parent_chain parentNode node ns \<Longrightarrow>
   isAttachedToDom_loop parentNode document node = Some (document \<in> set (tl ns))"
proof (induction rule: parent_chain.induct)
  case (chain_null parentNode)
  show ?case by (subst isAttachedToDom_loop.simps) simp
next
  case (chain_node parentNode n ns)
  show ?case
  proof (cases "parentNode n = Some document")
    case True
    with chain_node.hyps have "document \<in> set ns"
      by (cases rule: parent_chain.cases) auto
    with True show ?thesis by (subst isAttachedToDom_loop.simps) simp
  next
    case False
    have "(document \<in> set ns) = (document \<in> set (tl ns))"
      using parent_chain_head [OF chain_node.hyps, of document] False by simp
    with False chain_node.IH show ?thesis
      by (subst isAttachedToDom_loop.simps) (simp add: Let_def)
  qed
qed

section \<open>Claims about escaping and rendering\<close>

text \<open>
  C6. For every string, \<^verbatim>\<open>escapeHtml\<close> returns the string in which each character has
  been mapped on its own: \<^verbatim>\<open>&\<close> to \<^verbatim>\<open>&amp;\<close>, the double quote to \<^verbatim>\<open>&quot;\<close>, the single
  quote to \<^verbatim>\<open>&#039;\<close>, \<^verbatim>\<open><\<close> to \<^verbatim>\<open>&lt;\<close>, \<^verbatim>\<open>>\<close> to \<^verbatim>\<open>&gt;\<close>, and every other
  character to itself. The five replacements of the source run one after the other over
  the whole string; since \<^verbatim>\<open>&\<close> is replaced first, the ampersands of the entities that
  the later replacements write are not escaped again, and the result is the same as that
  of the single pass.
\<close>

theorem escapeHtml_charwise:
  "escapeHtml (Str s) = Str (concat (map escape_char s))"
  by (simp add: escape_string_map)



section \<open>Claims about the attribute template\<close>



text \<open>
  C2. The parsing loop terminates on every string (\<open>tmpl_loop\<close> is a total function, its
  measure is the distance of \<^verbatim>\<open>loopCount\<close> from the cap). The body of the loop is entered at
  most 100 times and the counter never passes 100. On a malformed string, where \<^verbatim>\<open>[\<close> or
  \<^verbatim>\<open>]\<close> is missing or the first \<^verbatim>\<open>]\<close> comes before the first \<^verbatim>\<open>[\<close>, and in general as soon
  as the string has no segment \<open>pre [ key ] post\<close>, the loop leaves at once with the string
  and the counter unchanged; and a loop that ends below the cap ends for that reason.
\<close>

theorem tmpl_loop_bounded:
  "tmpl_iterations win data value 0 \<le> 100
   \<and> snd (tmpl_loop win data value 0) \<le> 100
   \<and> loopCount \<le> snd (tmpl_loop win data value loopCount)
   \<and> snd (tmpl_loop win data value loopCount) \<le> max loopCount 100
   \<and> (CHR ''['' \<notin> set value \<or> CHR '']'' \<notin> set value \<or>
        indexOf value (CHR '']'') < indexOf value (CHR ''['') \<longrightarrow>
        tmpl_loop win data value loopCount = (value, loopCount))
   \<and> (\<not> (\<exists>pre key post. bracketed value pre key post) \<longrightarrow>
        tmpl_loop win data value loopCount = (value, loopCount))
   \<and> (snd (tmpl_loop win data value loopCount) < 100 \<longrightarrow>
        \<not> (\<exists>pre key post. bracketed (fst (tmpl_loop win data value loopCount)) pre key post))"
proof (intro conjI impI)
  show "tmpl_iterations win data value 0 \<le> 100"
    using tmpl_iterations_le [of win data "value" 0] by (simp add: maxLoop_def)
  show "snd (tmpl_loop win data value 0) \<le> 100"
    using tmpl_loop_count [of 0 win data "value"] by (simp add: maxLoop_def)
  show "loopCount \<le> snd (tmpl_loop win data value loopCount)"
    using tmpl_loop_count [of loopCount win data "value"] by simp
  show "snd (tmpl_loop win data value loopCount) \<le> max loopCount 100"
    using tmpl_loop_count [of loopCount win data "value"] by (simp add: maxLoop_def)
next
  assume "CHR ''['' \<notin> set value \<or> CHR '']'' \<notin> set value \<or>
        indexOf value (CHR '']'') < indexOf value (CHR ''['')"
  then show "tmpl_loop win data value loopCount = (value, loopCount)"
    by (intro tmpl_loop_exit malformed_not_bracketed)
next
  assume "\<not> (\<exists>pre key post. bracketed value pre key post)"
  then show "tmpl_loop win data value loopCount = (value, loopCount)"
    by (rule tmpl_loop_exit)
next
  assume "snd (tmpl_loop win data value loopCount) < 100"
  then show "\<not> (\<exists>pre key post. bracketed (fst (tmpl_loop win data value loopCount)) pre key post)"
    by (intro tmpl_loop_done) (simp add: maxLoop_def)
qed

theorem tmpl_loop_bounded_witness:
  "indexOf '']a[b]'' (CHR '']'') < indexOf '']a[b]'' (CHR ''['') \<and>
   tmpl_loop [] Null '']a[b]'' 0 = ('']a[b]'', 0) \<and>
   CHR '']'' \<notin> set ''a[b'' \<and>
   tmpl_loop [] Null ''a[b'' 7 = (''a[b'', 7) \<and>
   tmpl_iterations [] Null ''[a][b]'' 0 \<le> 100 \<and>
   snd (tmpl_loop [] Null ''[a][b]'' 0) < 100 \<and>
   \<not> (\<exists>pre key post. bracketed ''nullnull'' pre key post)"
proof -
  have 1: "indexOf '']a[b]'' (CHR '']'') < indexOf '']a[b]'' (CHR ''['')"
    by (simp add: Let_def)
  have 2: "CHR '']'' \<notin> set ''a[b''" by simp
  show ?thesis
    using tmpl_loop_bounded [of "[]" Null "'']a[b]''" 0]
      tmpl_loop_bounded [of "[]" Null "''a[b''" 7]
      tmpl_loop_bounded [of "[]" Null "''[a][b]''" 0] 1 2
    by (simp add: null_twice)
qed

text \<open>
  C8. \<^verbatim>\<open>getBindValue\<close> never returns \<^verbatim>\<open>undefined\<close>: it returns \<^verbatim>\<open>null\<close> when the lookup
  along the key gives \<^verbatim>\<open>undefined\<close> and when a value that is not an object is met with
  keys still to follow. So the test for \<^verbatim>\<open>undefined\<close> in the loop body never succeeds: the
  body is the plain concatenation with the text of the bound value. A segment \<^verbatim>\<open>[key]\<close>
  whose key has no dot and is not a property of the data object, and in general every
  segment whose key is bound to \<^verbatim>\<open>null\<close>, is replaced by the text \<^verbatim>\<open>null\<close>, not by the
  empty string.
\<close>

theorem getBindValue_never_undefined:
  "getBindValue win data key \<noteq> Undefined
   \<and> (getBindValue_loop win (bind_root data (split_str (CHR ''.'') key))
          (split_str (CHR ''.'') key) = Undefined \<longrightarrow>
        getBindValue win data key = Null)
   \<and> (split_str (CHR ''.'') key = ks1 @ k # ks2 \<and>
        \<not> is_object (getBindValue_loop win (bind_root data (split_str (CHR ''.'') key)) ks1) \<longrightarrow>
        getBindValue win data key = Null)
   \<and> substitute win data value posStart posEnd =
        substring value 0 posStart @
        ToString (getBindValue win data (substring value (posStart + 1) posEnd)) @
        substring_from value (posEnd + 1)
   \<and> (CHR ''.'' \<notin> set key \<and> map_of ps key = None \<longrightarrow>
        getBindValue win (Obj t ps) key = Null)
   \<and> (bracketed value pre key post \<and> loopCount < maxLoop \<and>
        CHR ''.'' \<notin> set key \<and> map_of ps key = None \<longrightarrow>
        tmpl_loop win (Obj t ps) value loopCount =
        tmpl_loop win (Obj t ps) (pre @ ''null'' @ post) (loopCount + 1))
   \<and> (bracketed value pre key post \<and> loopCount < maxLoop \<and>
        getBindValue win data key = Null \<longrightarrow>
        tmpl_loop win data value loopCount =
        tmpl_loop win data (pre @ ''null'' @ post) (loopCount + 1))"
proof (intro conjI impI)
  show "getBindValue win data key \<noteq> Undefined"
    by (rule getBindValue_not_Undefined)
next
  assume "getBindValue_loop win (bind_root data (split_str (CHR ''.'') key))
          (split_str (CHR ''.'') key) = Undefined"
  then show "getBindValue win data key = Null"
    by (simp add: getBindValue_def)
next
  assume a: "split_str (CHR ''.'') key = ks1 @ k # ks2 \<and>
        \<not> is_object (getBindValue_loop win (bind_root data (split_str (CHR ''.'') key)) ks1)"
  let ?root = "bind_root data (split_str (CHR ''.'') key)"
  have "getBindValue_loop win ?root (ks1 @ k # ks2) =
        getBindValue_loop win (getBindValue_loop win ?root ks1) (k # ks2)"
    by (rule getBindValue_loop_append)
  also have "\<dots> = Null"
    by (rule getBindValue_loop_non_object) (use a in blast, simp)
  finally have "getBindValue_loop win ?root (split_str (CHR ''.'') key) = Null"
    using a by simp
  then show "getBindValue win data key = Null"
    by (simp add: getBindValue_def)
next
  show "substitute win data value posStart posEnd =
        substring value 0 posStart @
        ToString (getBindValue win data (substring value (posStart + 1) posEnd)) @
        substring_from value (posEnd + 1)"
    by (simp add: substitute_def Let_def getBindValue_not_Undefined)
next
  assume "CHR ''.'' \<notin> set key \<and> map_of ps key = None"
  then show "getBindValue win (Obj t ps) key = Null"
    by (intro getBindValue_absent) simp_all
next
  assume a: "bracketed value pre key post \<and> loopCount < maxLoop \<and>
        CHR ''.'' \<notin> set key \<and> map_of ps key = None"
  then have "getBindValue win (Obj t ps) key = Null"
    by (intro getBindValue_absent) simp_all
  moreover have "tmpl_loop win (Obj t ps) value loopCount =
        tmpl_loop win (Obj t ps) (pre @ ToString (getBindValue win (Obj t ps) key) @ post)
          (loopCount + 1)"
    using a by (intro tmpl_loop_step) simp_all
  ultimately show "tmpl_loop win (Obj t ps) value loopCount =
        tmpl_loop win (Obj t ps) (pre @ ''null'' @ post) (loopCount + 1)"
    by simp
next
  assume a: "bracketed value pre key post \<and> loopCount < maxLoop \<and>
        getBindValue win data key = Null"
  then have "tmpl_loop win data value loopCount =
        tmpl_loop win data (pre @ ToString (getBindValue win data key) @ post) (loopCount + 1)"
    by (intro tmpl_loop_step) simp_all
  with a show "tmpl_loop win data value loopCount =
        tmpl_loop win data (pre @ ''null'' @ post) (loopCount + 1)"
    by simp
qed

theorem getBindValue_never_undefined_witness:
  "bracketed ''#/[missing]/x'' ''#/'' ''missing'' ''/x'' \<and> 0 < maxLoop \<and>
   CHR ''.'' \<notin> set ''missing'' \<and> map_of [(''id'', Num ''5'')] ''missing'' = None \<and>
   getBindValue_loop [] (bind_root (Obj ''[object Object]'' [(''id'', Num ''5'')])
       (split_str (CHR ''.'') ''missing'')) (split_str (CHR ''.'') ''missing'') = Undefined \<and>
   getBindValue [] (Obj ''[object Object]'' [(''id'', Num ''5'')]) ''missing'' = Null \<and>
   tmpl_loop [] (Obj ''[object Object]'' [(''id'', Num ''5'')]) ''#/[missing]/x'' 0 = (''#/null/x'', 1) \<and>
   split_str (CHR ''.'') ''id.name.first'' = [''id''] @ ''name'' # [''first''] \<and>
   \<not> is_object (getBindValue_loop [] (bind_root (Obj ''[object Object]'' [(''id'', Num ''5'')])
                  (split_str (CHR ''.'') ''id.name.first'')) [''id'']) \<and>
   getBindValue [] (Obj ''[object Object]'' [(''id'', Num ''5'')]) ''id.name.first'' = Null"
proof -
  have b: "bracketed ''#/[missing]/x'' ''#/'' ''missing'' ''/x''"
    by (simp add: bracketed_def)
  have m: "0 < maxLoop" by (simp add: maxLoop_def)
  have s: "split_str (CHR ''.'') ''id.name.first'' = [''id''] @ ''name'' # [''first'']"
    by (simp add: Let_def)
  have r: "tmpl_loop [] (Obj ''[object Object]'' [(''id'', Num ''5'')]) ''#/null/x'' (0 + 1) = (''#/null/x'', 1)"
    by (simp add: no_bracket_exit)
  show ?thesis
    using getBindValue_never_undefined [of "[]" "Obj ''[object Object]'' [(''id'', Num ''5'')]"
        "''missing''" "[]" "''''" "[]" "''#/[missing]/x''" 0 0 "[(''id'', Num ''5'')]" "''[object Object]''"
        "''#/''" "''/x''" 0]
      getBindValue_never_undefined [of "[]" "Obj ''[object Object]'' [(''id'', Num ''5'')]"
        "''id.name.first''" "[''id'']" "''name''" "[''first'']" "''''" 0 0 "[]" "''''"
        "''''" "''''" 0]
      b m s r
    by (simp add: bind_root_def Let_def)
qed

section \<open>Claims about binding again\<close>




section \<open>Claim about the probe\<close>

text \<open>
  C3. A call of \<^verbatim>\<open>polyfillCustomElements\<close> that finds \<^verbatim>\<open>polyfillIsNeeded\<close> at \<^verbatim>\<open>null\<close> runs the
  probe once and leaves a boolean in it; a call that finds a boolean keeps it, runs no
  probe and leaves the registry alone, whatever the root element. So in any sequence of
  calls after the module was loaded the probe runs at most once, in the first call, and
  every later call sees the value that the first call computed.
\<close>

theorem polyfill_probe_once:
  "(polyfillIsNeeded st = None \<longrightarrow>
      (\<exists>c. polyfillIsNeeded (polyfillCustomElements b r st) = Some c) \<and>
      probes (polyfillCustomElements b r st) = probes st + 1)
   \<and> (polyfillIsNeeded st = Some c \<longrightarrow>
      polyfillIsNeeded (polyfillCustomElements b r st) = Some c \<and>
      probes (polyfillCustomElements b r st) = probes st \<and>
      registry (polyfillCustomElements b r st) = registry st)
   \<and> probes (fold (polyfillCustomElements b) rs module_start) \<le> 1
   \<and> probes (fold (polyfillCustomElements b) (r # rs) module_start) = 1
   \<and> polyfillIsNeeded (fold (polyfillCustomElements b) (r # rs) module_start) =
       polyfillIsNeeded (polyfillCustomElements b r module_start)
   \<and> polyfillIsNeeded (polyfillCustomElements b r module_start) \<noteq> None"
proof -
  have n: "polyfillIsNeeded module_start = None" and z: "probes module_start = 0"
    by (simp_all add: module_start_def)
  have first: "\<exists>c. polyfillIsNeeded (polyfillCustomElements b r s) = Some c"
    "probes (polyfillCustomElements b r s) = probes s + 1"
    if "polyfillIsNeeded s = None" for s r
    using polyfillCustomElements_first [OF that, of b r] by auto
  have many: "probes (fold (polyfillCustomElements b) (r # rs) module_start) = 1 \<and>
      polyfillIsNeeded (fold (polyfillCustomElements b) (r # rs) module_start) =
        polyfillIsNeeded (polyfillCustomElements b r module_start)" for r rs
  proof -
    from first [OF n, of r] obtain c where
      c: "polyfillIsNeeded (polyfillCustomElements b r module_start) = Some c"
      and p: "probes (polyfillCustomElements b r module_start) = 1"
      using z by auto
    from calls_cached [OF c, of b rs] p c show ?thesis by simp
  qed
  have le: "probes (fold (polyfillCustomElements b) rs module_start) \<le> 1"
  proof (cases rs)
    case Nil
    then show ?thesis by (simp add: z)
  next
    case (Cons r' rs')
    then show ?thesis using many [of r' rs'] by simp
  qed
  show ?thesis
    using first [OF _, of st r] polyfillCustomElements_cached [of st c b r] many [of r rs] le
      first(1) [OF n, of r]
    by auto
qed

theorem polyfill_probe_once_witness:
  "polyfillIsNeeded module_start = None \<and>
   polyfillIsNeeded (polyfillCustomElements False example_root module_start) = Some True \<and>
   probes (polyfillCustomElements False example_root module_start) = 1 \<and>
   polyfillIsNeeded (polyfillCustomElements False example_root
      (polyfillCustomElements False example_root module_start)) = Some True \<and>
   probes (polyfillCustomElements False example_root
      (polyfillCustomElements False example_root module_start)) = 1"
proof -
  have n: "polyfillIsNeeded module_start = None"
    by (simp add: module_start_def)
  have t: "polyfillIsNeeded (polyfillCustomElements False example_root module_start) = Some True"
    using polyfillCustomElements_first [OF n, of False example_root]
    by (simp add: probe_def Let_def)
  show ?thesis
    using polyfill_probe_once [of module_start False example_root True "[]"]
      polyfill_probe_once [of "polyfillCustomElements False example_root module_start" False
        example_root True "[]"] n t
    by (simp add: module_start_def)
qed

section \<open>Claim about waiting for components\<close>

text \<open>
  C4, as amended. When no element was undefined at the call, or \<^verbatim>\<open>whenDefined\<close> is
  fulfilled for every one of them, the promise of \<^verbatim>\<open>componentsAreSetup\<close> resolves: the timer
  polls every 10 milliseconds, the promise resolves at the first poll that finds no element
  with \<^verbatim>\<open>[not-setup]\<close>, and if every poll finds some, at poll number 1002 (the first with a
  counter above 1000), about ten seconds after the timer started. The timer is cleared at
  that poll, so the polling always stops. When some element was undefined and the
  definitions are not all fulfilled, the promise never resolves.
\<close>

theorem componentsAreSetup_resolves:
  "(undefinedComponents env = [] \<or>
    promise_all (map (whenDefined env) (undefinedComponents env)) = Fulfilled \<longrightarrow>
      (\<exists>polls. componentsAreSetup env = Some polls \<and>
         1 \<le> polls \<and> polls \<le> 1002 \<and> interval_ms * polls \<le> 10020 \<and>
         (\<forall>j. j < polls - 1 \<longrightarrow> notSetup env j \<noteq> 0) \<and>
         (notSetup env (polls - 1) = 0 \<or> polls = 1002)))
   \<and> (undefinedComponents env \<noteq> [] \<and>
       promise_all (map (whenDefined env) (undefinedComponents env)) \<noteq> Fulfilled \<longrightarrow>
         componentsAreSetup env = None)
   \<and> (promise_all (map (whenDefined env) (undefinedComponents env)) = Fulfilled
        \<longleftrightarrow> (\<forall>name\<in>set (undefinedComponents env). whenDefined env name = Fulfilled))"
proof (intro conjI impI)
  assume a: "undefinedComponents env = [] \<or>
    promise_all (map (whenDefined env) (undefinedComponents env)) = Fulfilled"
  from start_polling_spec [of env] obtain st polls where
    p: "start_polling env = (st, polls)" "resolved st" "1 \<le> polls" "polls \<le> maxLoops + 2"
       "\<forall>j. j < polls - 1 \<longrightarrow> notSetup env j \<noteq> 0"
       "notSetup env (polls - 1) = 0 \<or> polls = maxLoops + 2"
    by blast
  have "componentsAreSetup env = Some polls"
    using a p(1,2) by (auto simp: componentsAreSetup_def)
  moreover have "interval_ms * polls \<le> 10020"
    using p(4) by (simp add: interval_ms_def maxLoops_def)
  ultimately show "\<exists>polls. componentsAreSetup env = Some polls \<and>
         1 \<le> polls \<and> polls \<le> 1002 \<and> interval_ms * polls \<le> 10020 \<and>
         (\<forall>j. j < polls - 1 \<longrightarrow> notSetup env j \<noteq> 0) \<and>
         (notSetup env (polls - 1) = 0 \<or> polls = 1002)"
    using p by (auto simp: maxLoops_def)
next
  assume "undefinedComponents env \<noteq> [] \<and>
       promise_all (map (whenDefined env) (undefinedComponents env)) \<noteq> Fulfilled"
  then show "componentsAreSetup env = None"
    by (auto simp: componentsAreSetup_def split: settle.splits)
next
  show "promise_all (map (whenDefined env) (undefinedComponents env)) = Fulfilled
        \<longleftrightarrow> (\<forall>name\<in>set (undefinedComponents env). whenDefined env name = Fulfilled)"
    by (simp add: promise_all_Fulfilled)
qed

theorem componentsAreSetup_resolves_witness:
  "promise_all (map (whenDefined slow_page) (undefinedComponents slow_page)) = Fulfilled \<and>
   componentsAreSetup slow_page = Some 4 \<and>
   undefinedComponents never_ready_page = [] \<and>
   componentsAreSetup never_ready_page = Some 1002 \<and>
   undefinedComponents stuck_page \<noteq> [] \<and>
   promise_all (map (whenDefined stuck_page) (undefinedComponents stuck_page)) = Pending"
proof -
  have f: "promise_all (map (whenDefined slow_page) (undefinedComponents slow_page)) = Fulfilled"
    by (simp add: slow_page_def)
  from componentsAreSetup_resolves [of slow_page] f obtain polls where
    c: "componentsAreSetup slow_page = Some polls"
       "\<forall>j. j < polls - 1 \<longrightarrow> notSetup slow_page j \<noteq> 0"
       "notSetup slow_page (polls - 1) = 0 \<or> polls = 1002"
    by blast
  have "\<not> 3 < polls - 1"
    using c(2) [rule_format, of 3] by (auto simp: slow_page_def)
  moreover have "\<not> polls - 1 < 3"
    using c(3) calculation by (auto simp: slow_page_def split: if_splits)
  ultimately have "polls = 4" using c(3) by auto
  with c(1) have 1: "componentsAreSetup slow_page = Some 4" by simp
  have u: "undefinedComponents never_ready_page = []"
    by (simp add: never_ready_page_def)
  from componentsAreSetup_resolves [of never_ready_page] u obtain polls' where
    d: "componentsAreSetup never_ready_page = Some polls'"
       "notSetup never_ready_page (polls' - 1) = 0 \<or> polls' = 1002"
    by blast
  then have 2: "componentsAreSetup never_ready_page = Some 1002"
    by (auto simp: never_ready_page_def)
  have 3: "undefinedComponents stuck_page \<noteq> []"
    "promise_all (map (whenDefined stuck_page) (undefinedComponents stuck_page)) = Pending"
    by (simp_all add: stuck_page_def)
  from f 1 u 2 3 show ?thesis by simp
qed

text \<open>
  C4, as stated, fails on a page with an element \<^verbatim>\<open><my-widget>\<close> that is never defined:
  the executor waits for \<^verbatim>\<open>whenDefined\<close> before it starts the timer, so no poll is made and
  the promise stays pending although no element carries \<^verbatim>\<open>[not-setup]\<close>.
\<close>

theorem componentsAreSetup_resolves_counterexample:
  "componentsAreSetup stuck_page = None"
  by (simp add: componentsAreSetup_def stuck_page_def)

section \<open>Claim about the animation service\<close>

text \<open>
  C5, as amended. When every intersecting entry of a batch has a target whose
  \<^verbatim>\<open>data-animate\<close> value is one class name (not empty, no white space), the callback ends
  without an exception and, for every intersecting entry, the class named by the attribute
  is in the class list of the target and the target is no longer observed. An element
  that is not observed is in no batch that the browser delivers, so later batches leave
  it as it is and do not observe it again: after the batch that added its class, an
  element is not processed again. The class list never holds a class twice.
\<close>

theorem observer_adds_class_once:
  "(list_all (\<lambda>e. isIntersecting e \<longrightarrow> class_token (data_animate (elements page (target e))))
      batch \<longrightarrow>
      snd (observer_callback batch page) = None \<and>
      (\<forall>e\<in>set batch. isIntersecting e \<longrightarrow>
         attribute_text (data_animate (elements page (target e)))
           \<in> set (classList (elements (fst (observer_callback batch page)) (target e))) \<and>
         target e \<notin> observed (fst (observer_callback batch page))))
   \<and> (t \<notin> observed page \<and> delivered_by_browser batches page \<longrightarrow>
        elements (deliver batches page) t = elements page t \<and>
        t \<notin> observed (deliver batches page))
   \<and> (list_all (\<lambda>e. isIntersecting e \<longrightarrow> class_token (data_animate (elements page (target e))))
         batch \<and>
       e \<in> set batch \<and> isIntersecting e \<and>
       delivered_by_browser batches (fst (observer_callback batch page)) \<longrightarrow>
        elements (deliver (batch # batches) page) (target e) =
          elements (fst (observer_callback batch page)) (target e))
   \<and> (distinct (classList (elements page t)) \<longrightarrow>
        distinct (classList (elements (deliver batches page) t)))"
proof (intro conjI impI)
  assume "list_all (\<lambda>e. isIntersecting e \<longrightarrow> class_token (data_animate (elements page (target e)))) batch"
  from callback_adds [OF this]
  show "snd (observer_callback batch page) = None"
    and "\<forall>e\<in>set batch. isIntersecting e \<longrightarrow>
         attribute_text (data_animate (elements page (target e)))
           \<in> set (classList (elements (fst (observer_callback batch page)) (target e))) \<and>
         target e \<notin> observed (fst (observer_callback batch page))"
    by blast+
next
  assume a: "t \<notin> observed page \<and> delivered_by_browser batches page"
  then have "elements (deliver batches page) t = elements page t \<and>
        t \<notin> observed (deliver batches page)"
    by (intro deliver_unobserved) simp_all
  then show "elements (deliver batches page) t = elements page t"
    and "t \<notin> observed (deliver batches page)"
    by simp_all
next
  assume a: "list_all (\<lambda>e. isIntersecting e \<longrightarrow> class_token (data_animate (elements page (target e))))
         batch \<and>
       e \<in> set batch \<and> isIntersecting e \<and>
       delivered_by_browser batches (fst (observer_callback batch page))"
  then have "target e \<notin> observed (fst (observer_callback batch page))"
    using callback_adds [of page batch] by blast
  with a have "elements (deliver batches (fst (observer_callback batch page))) (target e) =
               elements (fst (observer_callback batch page)) (target e)"
    using deliver_unobserved by blast
  then show "elements (deliver (batch # batches) page) (target e) =
          elements (fst (observer_callback batch page)) (target e)"
    by simp
next
  assume "distinct (classList (elements page t))"
  then show "distinct (classList (elements (deliver batches page) t))"
    by (rule deliver_distinct)
qed

theorem observer_adds_class_once_witness:
  "list_all (\<lambda>e. isIntersecting e \<longrightarrow> class_token (data_animate (elements animate_page (target e))))
      one_class_batch \<and>
   4 \<in> observed animate_page \<and>
   snd (observer_callback one_class_batch animate_page) = None \<and>
   ''show-and-scale'' \<in> set (classList (elements (fst (observer_callback one_class_batch animate_page)) 4)) \<and>
   4 \<notin> observed (fst (observer_callback one_class_batch animate_page)) \<and>
   delivered_by_browser [two_classes_batch] (fst (observer_callback one_class_batch animate_page)) \<and>
   elements (deliver [one_class_batch, two_classes_batch] animate_page) 4 =
     elements (fst (observer_callback one_class_batch animate_page)) 4 \<and>
   distinct (classList (elements animate_page 4)) \<and>
   distinct (classList (elements (deliver [one_class_batch, two_classes_batch] animate_page) 4))"
proof -
  have v: "list_all (\<lambda>e. isIntersecting e \<longrightarrow> class_token (data_animate (elements animate_page (target e))))
      one_class_batch"
    by (simp add: one_class_batch_def animate_page_simps show_and_scale_token)
  have m: "\<lparr>target = 4, isIntersecting = True\<rparr> \<in> set one_class_batch"
    by (simp add: one_class_batch_def)
  have o: "observed (fst (observer_callback one_class_batch animate_page)) = {5}"
    using show_and_scale_token
    by (auto simp: one_class_batch_def animate_page_simps classList_add_ok attribute_text_def Let_def)
  have d: "delivered_by_browser [two_classes_batch] (fst (observer_callback one_class_batch animate_page))"
    by (simp add: o two_classes_batch_def)
  have x: "distinct (classList (elements animate_page 4))"
    by (simp add: animate_page_simps)
  show ?thesis
    using observer_adds_class_once [of animate_page one_class_batch 4 "[]"
        "\<lparr>target = 4, isIntersecting = True\<rparr>"]
      observer_adds_class_once [of animate_page one_class_batch 4 "[two_classes_batch]"
        "\<lparr>target = 4, isIntersecting = True\<rparr>"]
      observer_adds_class_once [of animate_page one_class_batch 4
        "[one_class_batch, two_classes_batch]" "\<lparr>target = 4, isIntersecting = True\<rparr>"]
      v m o d x
    by (simp add: animate_page_simps attribute_text_def one_class_batch_def)
qed

text \<open>
  C5, as stated, fails for an observed element with \<^verbatim>\<open>data-animate="fade in"\<close>: when its
  intersecting entry is delivered, \<^verbatim>\<open>classList.add\<close> throws, no class is added and the
  element stays observed.
\<close>

theorem observer_adds_class_once_counterexample:
  "5 \<in> observed animate_page \<and>
   data_animate (elements animate_page 5) = Some ''fade in'' \<and>
   snd (observer_callback two_classes_batch animate_page) = Some InvalidCharacterError \<and>
   classList (elements (fst (observer_callback two_classes_batch animate_page)) 5) = [] \<and>
   5 \<in> observed (fst (observer_callback two_classes_batch animate_page))"
proof -
  have "classList_add ''fade in'' [] = Inl InvalidCharacterError"
    by code_simp
  then show ?thesis
    by (simp add: two_classes_batch_def animate_page_simps attribute_text_def Let_def)
qed

section \<open>Claim about attachment\<close>

text \<open>
  C10. Let \<open>ancestors\<close> be the parent, grandparent and further ancestors of the element,
  in this order. Then \<^verbatim>\<open>isAttachedToDom\<close> returns, and it returns \<^verbatim>\<open>true\<close> exactly when the
  document is among them from the grandparent on. In particular it returns \<^verbatim>\<open>false\<close> for
  an element whose parent is the document, as the root element is, and for an element
  without a parent.
\<close>

theorem isAttachedToDom_from_grandparent:
  "(parent_chain parentNode (parentNode element) ancestors \<longrightarrow>
      isAttachedToDom parentNode document element = Some (document \<in> set (drop 1 ancestors)))
   \<and> (parentNode element = Some document \<and> parentNode document = None \<longrightarrow>
      isAttachedToDom parentNode document element = Some False)
   \<and> (parentNode element = None \<longrightarrow> isAttachedToDom parentNode document element = Some False)"
proof (intro conjI impI)
  assume "parent_chain parentNode (parentNode element) ancestors"
  then show "isAttachedToDom parentNode document element = Some (document \<in> set (drop 1 ancestors))"
    by (simp add: isAttachedToDom_def isAttachedToDom_loop_chain drop_Suc)
next
  assume a: "parentNode element = Some document \<and> parentNode document = None"
  have "parent_chain parentNode (parentNode document) []"
    using a chain_null [of parentNode] by simp
  then have "parent_chain parentNode (Some document) [document]"
    by (rule chain_node)
  with a have "parent_chain parentNode (parentNode element) [document]"
    by simp
  then show "isAttachedToDom parentNode document element = Some False"
    by (simp add: isAttachedToDom_def isAttachedToDom_loop_chain)
next
  assume "parentNode element = None"
  then show "isAttachedToDom parentNode document element = Some False"
    by (simp add: isAttachedToDom_def isAttachedToDom_loop.simps)
qed

theorem isAttachedToDom_from_grandparent_witness:
  "parent_chain example_parentNode (example_parentNode 3) [2, 1, 0] \<and>
   isAttachedToDom example_parentNode 0 3 = Some True \<and>
   parent_chain example_parentNode (example_parentNode 2) [1, 0] \<and>
   isAttachedToDom example_parentNode 0 2 = Some True \<and>
   example_parentNode 1 = Some 0 \<and> example_parentNode 0 = None \<and>
   isAttachedToDom example_parentNode 0 1 = Some False \<and>
   example_parentNode 7 = None \<and>
   isAttachedToDom example_parentNode 0 7 = Some False"
proof -
  have c0: "parent_chain example_parentNode (Some 0) [0]"
    using chain_node [of example_parentNode 0 "[]"] chain_null [of example_parentNode]
    by (simp add: example_parentNode_def)
  have c1: "parent_chain example_parentNode (Some 1) [1, 0]"
    using chain_node [of example_parentNode 1 "[0]"] c0 by (simp add: example_parentNode_def)
  have c2: "parent_chain example_parentNode (Some 2) [2, 1, 0]"
    using chain_node [of example_parentNode 2 "[1, 0]"] c1 by (simp add: example_parentNode_def)
  have p3: "example_parentNode 3 = Some 2" and p2: "example_parentNode 2 = Some 1"
    and p1: "example_parentNode 1 = Some 0" and p0: "example_parentNode 0 = None"
    and p7: "example_parentNode 7 = None"
    by (simp_all add: example_parentNode_def)
  show ?thesis
    using isAttachedToDom_from_grandparent [of example_parentNode 3 "[2, 1, 0]" 0]
      isAttachedToDom_from_grandparent [of example_parentNode 2 "[1, 0]" 0]
      isAttachedToDom_from_grandparent [of example_parentNode 1 "[0]" 0]
      isAttachedToDom_from_grandparent [of example_parentNode 7 "[]" 0]
      c1 c2 p0 p1 p2 p3 p7
    by simp
qed

end
